theory Spec2Isabelle
  imports Main
begin

section \<open>Function pointers and the variant list\<close>

text \<open>
  The dispatcher of \<^verbatim>\<open>easy_dispatch.h\<close> is generic in the signature \<^verbatim>\<open>T\<close> of the
  dispatched function. A value of type \<^verbatim>\<open>T *\<close> that \<^verbatim>\<open>vcl_select\<close> handles is either
  \<^verbatim>\<open>nullptr\<close> (\<open>None\<close>) or the address of one compiled variant \<open>e\<close> (\<open>Some e\<close>).
  The template arguments \<^verbatim>\<open>f, fs ...\<close> and \<^verbatim>\<open>i, is ...\<close> run in parallel, so the pair
  \<open>(i, f)\<close> is one variant: the instruction set level and the pointer to its function.
  Levels are C++ \<^verbatim>\<open>int\<close>s that are only compared, never computed with.
\<close>

type_synonym 'e fptr = "'e option"

type_synonym 'e variant = "int \<times> 'e fptr"

text \<open>
  \<^verbatim>\<open>vcl_select\<close> has two overloads: one for a single remaining variant, one that splits
  off the first variant and recurses on the rest. There is no overload for an empty
  pack, so the list is passed as its first variant and the remaining ones.
\<close>

fun vcl_select :: "int \<Rightarrow> 'e variant \<Rightarrow> 'e variant list \<Rightarrow> 'e fptr" where
  "vcl_select n (i, f) [] = f"
| "vcl_select n (i, f) (v # vs) =
     (let g = vcl_select n v vs in
      if g \<noteq> None then g
      else if i \<le> n then f
      else None)"

text \<open>
  What the build has to guarantee about the list given in \<^verbatim>\<open>VCL_INSTRSETS\<close>:
  the levels are strictly ascending, and every pointer is the address of a function
  that is really linked in (\<^verbatim>\<open>VCL_DISPATCHER_IMPLEMENTATION_\<close> declares each
  \<^verbatim>\<open>vcl_<fun>_<n>\<close> as an \<^verbatim>\<open>extern\<close> function, so none of them is null).
  \<^verbatim>\<open>VCL_CONCAT\<close> derives the name of a variant from its level, so distinct levels
  name distinct functions.
\<close>

definition ascending :: "'e variant \<Rightarrow> 'e variant list \<Rightarrow> bool" where
  "ascending v vs = sorted_wrt (<) (map fst (v # vs))"

definition linked :: "'e variant \<Rightarrow> 'e variant list \<Rightarrow> bool" where
  "linked v vs = (\<forall>p \<in> set (v # vs). snd p \<noteq> None)"

definition distinct_variants :: "'e variant \<Rightarrow> 'e variant list \<Rightarrow> bool" where
  "distinct_variants v vs = distinct (map snd (v # vs))"

text \<open>
  The selection as the specification words it, for comparison with \<open>vcl_select\<close>:
  walk the list from the highest tier to the lowest, return the first entry whose level
  is \<open>\<le> n\<close>, and fall back to the lowest-tier entry if no entry qualifies.
\<close>

definition spec_select :: "int \<Rightarrow> 'e variant list \<Rightarrow> 'e fptr" where
  "spec_select n V =
     (case find (\<lambda>p. fst p \<le> n) (rev V) of
        Some p \<Rightarrow> snd p
      | None \<Rightarrow> (case V of [] \<Rightarrow> None | p # _ \<Rightarrow> snd p))"

text \<open>
  The variants of \<^verbatim>\<open>easy_dispatch_example.cpp\<close>, which is compiled with
  \<^verbatim>\<open>VCL_INSTRSETS 2, 5, 8, 10\<close>: \<^verbatim>\<open>VCL_DISPATCHED(myfunc)\<close> names them
  \<^verbatim>\<open>vcl_myfunc_2\<close>, \<^verbatim>\<open>vcl_myfunc_5\<close>, \<^verbatim>\<open>vcl_myfunc_8\<close> and \<^verbatim>\<open>vcl_myfunc_10\<close>.
\<close>

datatype myfunc = vcl_myfunc_2 | vcl_myfunc_5 | vcl_myfunc_8 | vcl_myfunc_10

definition myfunc_lowest :: "myfunc variant" where
  "myfunc_lowest = (2, Some vcl_myfunc_2)"

definition myfunc_higher :: "myfunc variant list" where
  "myfunc_higher = [(5, Some vcl_myfunc_5), (8, Some vcl_myfunc_8), (10, Some vcl_myfunc_10)]"

section \<open>The dispatch slot, the dispatcher and the wrapper\<close>

text \<open>
  \<^verbatim>\<open>VCL_DISPATCHER_IMPLEMENTATION_\<close> defines the global pointer \<^verbatim>\<open>vcl_<fun>_ptr\<close> and
  initialises it with the address of the instance of \<^verbatim>\<open>vcl_dispatch\<close>. That instance
  cannot occur among its own template arguments, so the slot holds either the
  dispatcher (\<open>Trampoline\<close>) or a pointer value that \<open>vcl_select\<close> produced.

  The entry points are opaque: the model records which of them a call reaches
  (\<open>invoked\<close>); the forwarded arguments and the returned value are theirs. The counter
  \<open>selections\<close> is instrumentation: it counts the evaluations of \<open>vcl_select\<close>.
\<close>

datatype 'e slotval = Trampoline | Target "'e fptr"

record 'e dispatch_state =
  slot :: "'e slotval"
  selections :: nat
  invoked :: "'e list"

text \<open>
  \<^verbatim>\<open>vcl_dispatch_exception\<close> is the exception whose \<^verbatim>\<open>what()\<close> is implemented in
  \<^verbatim>\<open>easy_dispatch.cpp\<close>. A call through a null function pointer has no defined
  behaviour in C++; the model stops with \<open>Null_call\<close>.
\<close>

datatype fault = Vcl_dispatch_exception | Null_call

definition vcl_dispatch_exception_what :: string where
  "vcl_dispatch_exception_what = ''Processor does not support least required instruction set''"

definition VCL_DISPATCHER :: "'e dispatch_state" where
  "VCL_DISPATCHER = \<lparr>slot = Trampoline, selections = 0, invoked = []\<rparr>"

definition call_ptr :: "'e fptr \<Rightarrow> 'e dispatch_state \<Rightarrow> fault + 'e dispatch_state" where
  "call_ptr p s =
     (case p of
        None \<Rightarrow> Inl Null_call
      | Some e \<Rightarrow> Inr (s\<lparr>invoked := invoked s @ [e]\<rparr>))"

text \<open>
  \<^verbatim>\<open>vcl_dispatch\<close> has two statements. The first one stores the pointer that
  \<^verbatim>\<open>vcl_select\<close> returns in the slot. The second one is \<^verbatim>\<open>return f(...)\<close>, and no \<^verbatim>\<open>f\<close>
  is declared in \<^verbatim>\<open>vcl_dispatch\<close> (its template parameters are \<^verbatim>\<open>T\<close>, \<^verbatim>\<open>ptr\<close>,
  \<^verbatim>\<open>Instrsets\<close>, \<^verbatim>\<open>fs\<close>, \<^verbatim>\<open>R\<close>, \<^verbatim>\<open>A\<close>, its function parameter is \<^verbatim>\<open>a\<close>). What the
  name stands for is therefore a parameter \<open>f\<close> of the model, an arbitrary function
  pointer, and nothing below depends on which one it is. The body contains no
  \<^verbatim>\<open>throw\<close>. The detected level \<open>lvl\<close> is the value of \<^verbatim>\<open>instrset_detect()\<close>, a function
  of \<^verbatim>\<open>instrset.h\<close>, which is outside these sources; it is a parameter as well.
\<close>

definition vcl_dispatch ::
  "'e fptr \<Rightarrow> int \<Rightarrow> 'e variant \<Rightarrow> 'e variant list \<Rightarrow> 'e dispatch_state
     \<Rightarrow> fault + 'e dispatch_state" where
  "vcl_dispatch f lvl v vs s =
     (let s' = s\<lparr>slot := Target (vcl_select lvl v vs), selections := selections s + 1\<rparr>
      in call_ptr f s')"

text \<open>
  The wrapper that \<^verbatim>\<open>VCL_DISPATCH\<close> expands to: \<^verbatim>\<open>return vcl_<fun>_ptr(args)\<close>, a call
  through whatever the slot holds.
\<close>

definition VCL_DISPATCH ::
  "'e fptr \<Rightarrow> int \<Rightarrow> 'e variant \<Rightarrow> 'e variant list \<Rightarrow> 'e dispatch_state
     \<Rightarrow> fault + 'e dispatch_state" where
  "VCL_DISPATCH f lvl v vs s =
     (case slot s of
        Trampoline \<Rightarrow> vcl_dispatch f lvl v vs s
      | Target p \<Rightarrow> call_ptr p s)"

text \<open>\<open>k\<close> calls of the logical function in sequence, as a single thread makes them.\<close>

fun calls ::
  "nat \<Rightarrow> 'e fptr \<Rightarrow> int \<Rightarrow> 'e variant \<Rightarrow> 'e variant list \<Rightarrow> 'e dispatch_state
     \<Rightarrow> fault + 'e dispatch_state" where
  "calls 0 f lvl v vs s = Inr s"
| "calls (Suc k) f lvl v vs s =
     (case VCL_DISPATCH f lvl v vs s of
        Inl x \<Rightarrow> Inl x
      | Inr s' \<Rightarrow> calls k f lvl v vs s')"

section \<open>Several threads calling the logical function\<close>

text \<open>
  Nothing in \<^verbatim>\<open>easy_dispatch.h\<close> synchronises the threads, so the statements of the
  wrapper and of \<^verbatim>\<open>vcl_dispatch\<close> interleave freely. A thread is idle (between two
  calls), or it has loaded the slot and entered the dispatcher, or it has evaluated
  \<^verbatim>\<open>vcl_select\<close> and is about to store the result, or it is about to enter the function
  a pointer leads to: the pointer it loaded from the slot or, in the dispatcher, the
  pointer \<open>f\<close> of \<^verbatim>\<open>return f(...)\<close>. Loading and storing the pointer are single steps, and
  \<^verbatim>\<open>instrset_detect()\<close> gives every thread the same level \<open>lvl\<close>. A schedule is the
  list of the thread numbers in the order in which they take their steps.
\<close>

datatype 'e thread = Idle | In_dispatch | Selected "'e fptr" | Invoking "'e fptr" | Crashed

record 'e process = "'e dispatch_state" +
  threads :: "nat \<Rightarrow> 'e thread"

definition process_start :: "'e process" where
  "process_start = \<lparr>slot = Trampoline, selections = 0, invoked = [], threads = (\<lambda>t. Idle)\<rparr>"

definition thread_step ::
  "'e fptr \<Rightarrow> int \<Rightarrow> 'e variant \<Rightarrow> 'e variant list \<Rightarrow> nat \<Rightarrow> 'e process \<Rightarrow> 'e process" where
  "thread_step f lvl v vs t s =
     (case threads s t of
        Idle \<Rightarrow>
          (case slot s of
             Trampoline \<Rightarrow> s\<lparr>threads := (threads s)(t := In_dispatch)\<rparr>
           | Target p \<Rightarrow> s\<lparr>threads := (threads s)(t := Invoking p)\<rparr>)
      | In_dispatch \<Rightarrow>
          s\<lparr>selections := selections s + 1,
            threads := (threads s)(t := Selected (vcl_select lvl v vs))\<rparr>
      | Selected g \<Rightarrow>
          s\<lparr>slot := Target g, threads := (threads s)(t := Invoking f)\<rparr>
      | Invoking p \<Rightarrow>
          (case p of
             None \<Rightarrow> s\<lparr>threads := (threads s)(t := Crashed)\<rparr>
           | Some e \<Rightarrow> s\<lparr>invoked := invoked s @ [e], threads := (threads s)(t := Idle)\<rparr>)
      | Crashed \<Rightarrow> s)"

definition run ::
  "'e fptr \<Rightarrow> int \<Rightarrow> 'e variant \<Rightarrow> 'e variant list \<Rightarrow> nat list \<Rightarrow> 'e process
     \<Rightarrow> 'e process" where
  "run f lvl v vs sched s = fold (thread_step f lvl v vs) sched s"

text \<open>
  The invariant of the interleaved execution: whatever has been stored in the slot or
  computed by a thread is the one value of the selection.
\<close>

definition consistent ::
  "int \<Rightarrow> 'e variant \<Rightarrow> 'e variant list \<Rightarrow> 'e process \<Rightarrow> bool" where
  "consistent lvl v vs s =
     ((slot s = Trampoline \<or> slot s = Target (vcl_select lvl v vs))
      \<and> (\<forall>t g. threads s t = Selected g \<longrightarrow> g = vcl_select lvl v vs))"

section \<open>Properties of the selection\<close>

lemma vcl_select_last:
  "linked v vs \<Longrightarrow> vcl_select n v vs = snd (last (v # vs))"
proof (induction vs arbitrary: v)
  case Nil
  show ?case by (cases v) simp
next
  case (Cons w ws)
  from Cons.prems have lw: "linked w ws"
    by (simp add: linked_def)
  have "last (w # ws) \<in> set (w # ws)"
    by (rule last_in_set) simp
  with lw have "snd (last (w # ws)) \<noteq> None"
    unfolding linked_def by blast
  with Cons.IH [OF lw] show ?case
    by (cases v) (simp add: Let_def)
qed

lemma linked_drop:
  assumes "linked v vs" and "k < length vs"
  shows "linked (vs ! k) (drop (Suc k) vs)"
proof -
  have "set (vs ! k # drop (Suc k) vs) = set (drop k vs)"
    using assms(2) by (simp add: Cons_nth_drop_Suc)
  also have "\<dots> \<subseteq> set vs"
    by (rule set_drop_subset)
  finally show ?thesis
    using assms(1) unfolding linked_def by auto
qed

lemma ascending_last_greatest:
  "ascending v vs \<Longrightarrow> p \<in> set (v # vs) \<Longrightarrow> fst p \<le> fst (last (v # vs))"
proof (induction vs arbitrary: v p)
  case Nil
  then show ?case by simp
next
  case (Cons w ws)
  from Cons.prems(1) have aw: "ascending w ws" and vw: "fst v < fst w"
    by (simp_all add: ascending_def)
  have w_le: "fst w \<le> fst (last (w # ws))"
    by (rule Cons.IH [OF aw]) simp
  show ?case
  proof (cases "p = v")
    case True
    with vw w_le show ?thesis by simp
  next
    case False
    with Cons.prems(2) have "p \<in> set (w # ws)" by simp
    from Cons.IH [OF aw this] show ?thesis by simp
  qed
qed

lemma same_pointer_same_level:
  assumes "distinct_variants v vs"
    and "(i1, q) \<in> set (v # vs)" and "(i2, q) \<in> set (v # vs)"
  shows "i1 = i2"
proof -
  from assms(1) have "inj_on snd (set (v # vs))"
    unfolding distinct_variants_def by (simp only: distinct_map)
  from inj_onD [OF this _ assms(2) assms(3)] show ?thesis by simp
qed

lemma example_linked: "linked myfunc_lowest myfunc_higher"
  by (simp add: linked_def myfunc_lowest_def myfunc_higher_def)

lemma example_ascending: "ascending myfunc_lowest myfunc_higher"
  by (simp add: ascending_def myfunc_lowest_def myfunc_higher_def)

lemma example_distinct: "distinct_variants myfunc_lowest myfunc_higher"
  by (simp add: distinct_variants_def myfunc_lowest_def myfunc_higher_def)

lemma example_select: "vcl_select n myfunc_lowest myfunc_higher = Some vcl_myfunc_10"
  by (simp add: myfunc_lowest_def myfunc_higher_def)

text \<open>
  Claim C4. As implemented, for a non-empty ascending list of linked variants and every
  detected level \<open>n\<close>, \<open>vcl_select\<close> returns the pointer of the last entry, which is the
  entry of the highest level. Every recursive call that the evaluation makes (on the
  \<open>k\<close>-th remaining variant and the ones after it) returns a non-null pointer, so the
  first \<^verbatim>\<open>if\<close> of the recursive overload always returns and neither the test
  \<^verbatim>\<open>i <= n\<close> nor \<^verbatim>\<open>return nullptr\<close> is reached. The result is the same for any two
  detected levels.
\<close>

theorem vcl_select_always_last:
  assumes "linked v vs" and "ascending v vs"
  shows "vcl_select n v vs = snd (last (v # vs))
       \<and> (\<forall>p \<in> set (v # vs). fst p \<le> fst (last (v # vs)))
       \<and> (\<forall>k < length vs. vcl_select n (vs ! k) (drop (Suc k) vs) \<noteq> None)
       \<and> vcl_select n v vs = vcl_select m v vs"
proof -
  have a: "vcl_select n v vs = snd (last (v # vs))"
    by (rule vcl_select_last [OF assms(1)])
  have b: "\<forall>p \<in> set (v # vs). fst p \<le> fst (last (v # vs))"
    using ascending_last_greatest [OF assms(2)] by blast
  have c: "vcl_select n (vs ! k) (drop (Suc k) vs) \<noteq> None" if k: "k < length vs" for k
  proof -
    let ?w = "vs ! k" and ?ws = "drop (Suc k) vs"
    have l: "linked ?w ?ws"
      by (rule linked_drop [OF assms(1) k])
    have "last (?w # ?ws) \<in> set (?w # ?ws)"
      by (rule last_in_set) simp
    with l have "snd (last (?w # ?ws)) \<noteq> None"
      unfolding linked_def by blast
    with vcl_select_last [OF l, of n] show ?thesis by simp
  qed
  have d: "vcl_select n v vs = vcl_select m v vs"
    by (simp only: vcl_select_last [OF assms(1)])
  from a b c d show ?thesis by blast
qed

theorem vcl_select_always_last_witness:
  "linked myfunc_lowest myfunc_higher \<and> ascending myfunc_lowest myfunc_higher
   \<and> vcl_select 7 myfunc_lowest myfunc_higher = Some vcl_myfunc_10
   \<and> vcl_select 7 (myfunc_higher ! 0) (drop (Suc 0) myfunc_higher) \<noteq> None
   \<and> vcl_select 7 myfunc_lowest myfunc_higher = vcl_select 0 myfunc_lowest myfunc_higher"
proof -
  have k: "0 < length myfunc_higher"
    by (simp add: myfunc_higher_def)
  have l: "snd (last (myfunc_lowest # myfunc_higher)) = Some vcl_myfunc_10"
    by (simp add: myfunc_lowest_def myfunc_higher_def)
  from vcl_select_always_last [OF example_linked example_ascending, of 7 0] k l
  show ?thesis
    using example_linked example_ascending by auto
qed

text \<open>
  Claim C7. For a non-empty ascending list of linked variants and every detected level,
  the pointer that \<open>vcl_select\<close> returns to its caller is not null and is the pointer of
  an entry of the list.
\<close>

theorem vcl_select_returns_member:
  assumes "linked v vs" and "ascending v vs"
  shows "\<exists>i e. vcl_select n v vs = Some e \<and> (i, Some e) \<in> set (v # vs)"
proof -
  have m: "last (v # vs) \<in> set (v # vs)"
    by (rule last_in_set) simp
  with assms(1) obtain e where e: "snd (last (v # vs)) = Some e"
    unfolding linked_def by blast
  then have "last (v # vs) = (fst (last (v # vs)), Some e)"
    by (simp add: prod_eq_iff)
  with m have "(fst (last (v # vs)), Some e) \<in> set (v # vs)"
    by simp
  moreover have "vcl_select n v vs = Some e"
    using vcl_select_last [OF assms(1), of n] e by simp
  ultimately show ?thesis by blast
qed

theorem vcl_select_returns_member_witness:
  "linked myfunc_lowest myfunc_higher \<and> ascending myfunc_lowest myfunc_higher
   \<and> (\<exists>i e. vcl_select 0 myfunc_lowest myfunc_higher = Some e
        \<and> (i, Some e) \<in> set (myfunc_lowest # myfunc_higher))"
  using vcl_select_returns_member [OF example_linked example_ascending, of 0]
    example_linked example_ascending
  by simp

text \<open>
  Claim C8. For a list with a single variant the selection returns the pointer of that
  variant for every detected level \<open>n\<close>, also for the level \<open>i - 1\<close> strictly below the
  level \<open>i\<close> of the variant.
\<close>

theorem vcl_select_single_entry:
  "vcl_select n (i, f) [] = f
   \<and> vcl_select (i - 1) (i, f) [] = f"
  by simp

text \<open>
  Claim C9. For a fixed ascending list of linked, pairwise distinct variants and detected
  levels \<open>n1 \<le> n2\<close>: if \<open>i1\<close> is the level of the entry selected for \<open>n1\<close> and \<open>i2\<close> the
  level of the entry selected for \<open>n2\<close>, then \<open>i1 \<le> i2\<close>.
\<close>

theorem vcl_select_monotone:
  assumes "linked v vs" and "ascending v vs" and "distinct_variants v vs"
    and "n1 \<le> n2"
    and "(i1, vcl_select n1 v vs) \<in> set (v # vs)"
    and "(i2, vcl_select n2 v vs) \<in> set (v # vs)"
  shows "i1 \<le> i2"
proof -
  have "vcl_select n1 v vs = vcl_select n2 v vs"
    by (simp only: vcl_select_last [OF assms(1)])
  with assms(5) have "(i1, vcl_select n2 v vs) \<in> set (v # vs)"
    by simp
  from same_pointer_same_level [OF assms(3) this assms(6)] show ?thesis
    by simp
qed

theorem vcl_select_monotone_witness:
  "linked myfunc_lowest myfunc_higher \<and> ascending myfunc_lowest myfunc_higher
   \<and> distinct_variants myfunc_lowest myfunc_higher \<and> (3::int) \<le> 9
   \<and> (10, vcl_select 3 myfunc_lowest myfunc_higher) \<in> set (myfunc_lowest # myfunc_higher)
   \<and> (10, vcl_select 9 myfunc_lowest myfunc_higher) \<in> set (myfunc_lowest # myfunc_higher)
   \<and> (10::int) \<le> 10"
proof -
  have le: "(3::int) \<le> 9" by simp
  have m3: "(10, vcl_select 3 myfunc_lowest myfunc_higher) \<in> set (myfunc_lowest # myfunc_higher)"
    by (simp add: myfunc_lowest_def myfunc_higher_def)
  have m9: "(10, vcl_select 9 myfunc_lowest myfunc_higher) \<in> set (myfunc_lowest # myfunc_higher)"
    by (simp add: myfunc_lowest_def myfunc_higher_def)
  from vcl_select_monotone [OF example_linked example_ascending example_distinct le m3 m9]
  show ?thesis
    using example_linked example_ascending example_distinct m3 m9 by simp
qed

text \<open>
  \<open>spec_select\<close> does what the specification asks of the selection: on an ascending
  list it returns the entry of the greatest level \<open>\<le> n\<close>, or the first (lowest) entry
  if every level is above \<open>n\<close>.
\<close>

lemma spec_select_greatest:
  assumes "ascending v vs"
  shows "(\<exists>p \<in> set (v # vs). fst p \<le> n \<and> (\<forall>q \<in> set (v # vs). fst q \<le> n \<longrightarrow> fst q \<le> fst p)
            \<and> spec_select n (v # vs) = snd p)
       \<or> ((\<forall>q \<in> set (v # vs). n < fst q) \<and> spec_select n (v # vs) = snd v)"
proof (cases "find (\<lambda>p. fst p \<le> n) (rev (v # vs))")
  case None
  then have "\<not> (\<exists>q. q \<in> set (rev (v # vs)) \<and> fst q \<le> n)"
    unfolding find_None_iff .
  then have "\<forall>q \<in> set (v # vs). n < fst q"
    unfolding set_rev by (meson not_le)
  moreover from None have "spec_select n (v # vs) = snd v"
    by (simp add: spec_select_def)
  ultimately show ?thesis by blast
next
  case (Some p)
  let ?R = "rev (v # vs)"
  from Some obtain i where i: "i < length ?R" and Pi: "fst (?R ! i) \<le> n"
    and p: "p = ?R ! i" and first: "\<forall>j<i. \<not> fst (?R ! j) \<le> n"
    unfolding find_Some_iff by blast
  have desc: "sorted_wrt (\<lambda>x y. fst y < fst x) ?R"
    using assms unfolding ascending_def sorted_wrt_rev sorted_wrt_map by simp
  have pin: "p \<in> set (v # vs)"
    using i p by (metis nth_mem set_rev)
  have "fst q \<le> fst p" if q: "q \<in> set (v # vs)" and Pq: "fst q \<le> n" for q
  proof -
    from q have "q \<in> set ?R" by simp
    then obtain j where j: "j < length ?R" and qj: "q = ?R ! j"
      by (metis in_set_conv_nth)
    from first Pq qj have "\<not> j < i" by blast
    then consider "j = i" | "i < j" by linarith
    then show ?thesis
    proof cases
      case 1
      with p qj show ?thesis by simp
    next
      case 2
      from sorted_wrt_nth_less [OF desc 2 j] p qj show ?thesis by simp
    qed
  qed
  moreover from Some have "spec_select n (v # vs) = snd p"
    by (simp add: spec_select_def)
  ultimately show ?thesis using pin Pi p by blast
qed

text \<open>
  Claim C1, evaluated on the code. With the variants of levels 5 and 8 (the list of the
  header's own example) and detected level 6, the entry with the greatest level \<open>\<le> 6\<close>
  is the one of level 5, and with detected level 2 no entry qualifies, so the lowest
  entry, again the one of level 5, is the fallback; that is what \<open>spec_select\<close> returns.
  \<open>vcl_select\<close> returns the entry of level 8 in both cases.
\<close>

theorem vcl_select_ignores_detected_level:
  "vcl_select 6 (5, Some vcl_myfunc_5) [(8, Some vcl_myfunc_8)] = Some vcl_myfunc_8
   \<and> spec_select 6 [(5, Some vcl_myfunc_5), (8, Some vcl_myfunc_8)] = Some vcl_myfunc_5
   \<and> vcl_select 2 (5, Some vcl_myfunc_5) [(8, Some vcl_myfunc_8)] = Some vcl_myfunc_8
   \<and> spec_select 2 [(5, Some vcl_myfunc_5), (8, Some vcl_myfunc_8)] = Some vcl_myfunc_5"
  by (simp add: spec_select_def)

text \<open>
  Claim C2, evaluated on the code. For the list of levels 2, 5, 8, 10 the code selects
  the variant of level 10 at the detected levels 7, 10, 0 and 11; the scenario expects
  the variants of level 5, 10, 2 and 10, which is what \<open>spec_select\<close> returns.
\<close>

theorem vcl_select_end_to_end_scenario:
  "vcl_select 7 myfunc_lowest myfunc_higher = Some vcl_myfunc_10
   \<and> vcl_select 10 myfunc_lowest myfunc_higher = Some vcl_myfunc_10
   \<and> vcl_select 0 myfunc_lowest myfunc_higher = Some vcl_myfunc_10
   \<and> vcl_select 11 myfunc_lowest myfunc_higher = Some vcl_myfunc_10
   \<and> spec_select 7 (myfunc_lowest # myfunc_higher) = Some vcl_myfunc_5
   \<and> spec_select 10 (myfunc_lowest # myfunc_higher) = Some vcl_myfunc_10
   \<and> spec_select 0 (myfunc_lowest # myfunc_higher) = Some vcl_myfunc_2
   \<and> spec_select 11 (myfunc_lowest # myfunc_higher) = Some vcl_myfunc_10"
  by (simp add: spec_select_def myfunc_lowest_def myfunc_higher_def)

section \<open>Properties of the dispatcher\<close>

lemma first_call:
  "VCL_DISPATCH f lvl v vs VCL_DISPATCHER
     = call_ptr f \<lparr>slot = Target (vcl_select lvl v vs), selections = 1, invoked = []\<rparr>"
  by (simp add: VCL_DISPATCH_def vcl_dispatch_def VCL_DISPATCHER_def)

lemma call_ptr_returns:
  "call_ptr p s = Inr s' \<Longrightarrow>
   slot s' = slot s \<and> selections s' = selections s \<and> (\<exists>e. p = Some e \<and> invoked s' = invoked s @ [e])"
  by (cases p) (auto simp: call_ptr_def)

lemma resolved_call:
  "slot s = Target (Some e) \<Longrightarrow>
   VCL_DISPATCH f lvl v vs s = Inr (s\<lparr>invoked := invoked s @ [e]\<rparr>)"
  by (simp add: VCL_DISPATCH_def call_ptr_def)

lemma resolved_calls:
  "slot s = Target (Some e) \<Longrightarrow>
   calls k f lvl v vs s = Inr (s\<lparr>invoked := invoked s @ replicate k e\<rparr>)"
proof (induction k arbitrary: s)
  case 0
  show ?case by simp
next
  case (Suc k)
  let ?s' = "s\<lparr>invoked := invoked s @ [e]\<rparr>"
  from Suc.prems have "slot ?s' = Target (Some e)" by simp
  from Suc.IH [OF this] resolved_call [OF Suc.prems, of f lvl v vs]
  show ?case by (simp add: replicate_app_Cons_same)
qed

lemma calls_selections:
  assumes sel: "vcl_select lvl v vs = Some e"
    and ret: "calls k f lvl v vs VCL_DISPATCHER = Inr s"
  shows "selections s \<le> 1"
proof (cases k)
  case 0
  with ret show ?thesis by (auto simp: VCL_DISPATCHER_def)
next
  case (Suc j)
  let ?s0 = "\<lparr>slot = Target (Some e), selections = 1, invoked = []\<rparr>"
  from ret Suc obtain s1 where c1: "VCL_DISPATCH f lvl v vs VCL_DISPATCHER = Inr s1"
    and rest: "calls j f lvl v vs s1 = Inr s"
    by (auto split: sum.splits)
  from c1 have "call_ptr f ?s0 = Inr s1"
    by (simp add: first_call sel)
  from call_ptr_returns [OF this] have s1: "slot s1 = Target (Some e)" "selections s1 = 1"
    by simp_all
  from rest resolved_calls [OF s1(1), of j f lvl v vs] s1(2) show ?thesis
    by auto
qed

text \<open>
  Claim C3, evaluated on the code. On a host of detected level 0, below the lowest
  compiled level 2 of the example, \<open>vcl_select\<close> returns the non-null pointer to
  \<^verbatim>\<open>vcl_myfunc_10\<close>, where the selection of the specification falls back to
  \<^verbatim>\<open>vcl_myfunc_2\<close>. \<^verbatim>\<open>vcl_dispatch\<close> stores that pointer in the slot and goes on to
  its \<^verbatim>\<open>return f(...)\<close>, whatever \<open>f\<close> is: no error is raised on the way.
\<close>

theorem first_call_below_minimum_stores_highest:
  "0 < fst myfunc_lowest
   \<and> vcl_select 0 myfunc_lowest myfunc_higher = Some vcl_myfunc_10
   \<and> spec_select 0 (myfunc_lowest # myfunc_higher) = Some vcl_myfunc_2
   \<and> VCL_DISPATCH f 0 myfunc_lowest myfunc_higher VCL_DISPATCHER
       = call_ptr f \<lparr>slot = Target (Some vcl_myfunc_10), selections = 1, invoked = []\<rparr>"
proof -
  have "spec_select 0 (myfunc_lowest # myfunc_higher) = Some vcl_myfunc_2"
    by (simp add: spec_select_def myfunc_lowest_def myfunc_higher_def)
  moreover have "0 < fst myfunc_lowest"
    by (simp add: myfunc_lowest_def)
  ultimately show ?thesis
    by (simp add: first_call example_select)
qed

text \<open>
  Claim C5. For linked variants let \<open>e\<close> be the entry point that \<open>vcl_select\<close> selects,
  an entry of the list. The first call through the wrapper reaches the forwarding
  statement of the dispatcher with the pointer to \<open>e\<close> stored in the slot. Whenever the
  first call returns, the slot still holds the pointer to \<open>e\<close>; the second call then
  is a call through that pointer, it returns after entering \<open>e\<close>, and it leaves the slot
  and the number of evaluations of \<open>vcl_select\<close>, which is 1, as they are. After any
  number \<open>k\<close> of calls in sequence \<open>vcl_select\<close> has been evaluated at most once.
\<close>

theorem second_call_bypasses_selection:
  assumes "linked v vs"
  shows "\<exists>i e. (i, Some e) \<in> set (v # vs) \<and> vcl_select lvl v vs = Some e
     \<and> VCL_DISPATCH f lvl v vs VCL_DISPATCHER
         = call_ptr f \<lparr>slot = Target (Some e), selections = 1, invoked = []\<rparr>
     \<and> (\<forall>s1. VCL_DISPATCH f lvl v vs VCL_DISPATCHER = Inr s1 \<longrightarrow>
           slot s1 = Target (Some e) \<and> selections s1 = 1
           \<and> VCL_DISPATCH f lvl v vs s1 = call_ptr (Some e) s1
           \<and> (\<exists>s2. VCL_DISPATCH f lvl v vs s1 = Inr s2
                \<and> slot s2 = Target (Some e) \<and> selections s2 = 1
                \<and> invoked s2 = invoked s1 @ [e]))
     \<and> (\<forall>k s. calls k f lvl v vs VCL_DISPATCHER = Inr s \<longrightarrow> selections s \<le> 1)"
proof -
  have m: "last (v # vs) \<in> set (v # vs)"
    by (rule last_in_set) simp
  with assms obtain e where e: "snd (last (v # vs)) = Some e"
    unfolding linked_def by blast
  then have "last (v # vs) = (fst (last (v # vs)), Some e)"
    by (simp add: prod_eq_iff)
  with m have mem: "(fst (last (v # vs)), Some e) \<in> set (v # vs)"
    by simp
  have sel: "vcl_select lvl v vs = Some e"
    using vcl_select_last [OF assms, of lvl] e by simp
  let ?s0 = "\<lparr>slot = Target (Some e), selections = 1, invoked = []\<rparr>"
  have c1: "VCL_DISPATCH f lvl v vs VCL_DISPATCHER = call_ptr f ?s0"
    by (simp add: first_call sel)
  have after: "slot s1 = Target (Some e) \<and> selections s1 = 1
      \<and> VCL_DISPATCH f lvl v vs s1 = call_ptr (Some e) s1
      \<and> (\<exists>s2. VCL_DISPATCH f lvl v vs s1 = Inr s2
           \<and> slot s2 = Target (Some e) \<and> selections s2 = 1
           \<and> invoked s2 = invoked s1 @ [e])"
    if ret: "VCL_DISPATCH f lvl v vs VCL_DISPATCHER = Inr s1" for s1
  proof -
    from ret c1 have "call_ptr f ?s0 = Inr s1" by simp
    from call_ptr_returns [OF this] have s1: "slot s1 = Target (Some e)" "selections s1 = 1"
      by simp_all
    have direct: "VCL_DISPATCH f lvl v vs s1 = call_ptr (Some e) s1"
      using s1(1) by (simp add: VCL_DISPATCH_def)
    let ?s2 = "s1\<lparr>invoked := invoked s1 @ [e]\<rparr>"
    have "VCL_DISPATCH f lvl v vs s1 = Inr ?s2"
      by (rule resolved_call [OF s1(1)])
    moreover have "slot ?s2 = Target (Some e)" "selections ?s2 = 1"
      "invoked ?s2 = invoked s1 @ [e]"
      using s1 by simp_all
    ultimately have "\<exists>s2. VCL_DISPATCH f lvl v vs s1 = Inr s2
        \<and> slot s2 = Target (Some e) \<and> selections s2 = 1
        \<and> invoked s2 = invoked s1 @ [e]"
      by blast
    with s1 direct show ?thesis by blast
  qed
  have once: "selections s \<le> 1" if "calls k f lvl v vs VCL_DISPATCHER = Inr s" for k s
    by (rule calls_selections [OF sel that])
  from mem sel c1 after once show ?thesis by blast
qed

theorem second_call_bypasses_selection_witness:
  "linked myfunc_lowest myfunc_higher
   \<and> vcl_select 8 myfunc_lowest myfunc_higher = Some vcl_myfunc_10
   \<and> VCL_DISPATCH (Some vcl_myfunc_2) 8 myfunc_lowest myfunc_higher VCL_DISPATCHER
       = Inr \<lparr>slot = Target (Some vcl_myfunc_10), selections = 1, invoked = [vcl_myfunc_2]\<rparr>
   \<and> (\<exists>s2. VCL_DISPATCH (Some vcl_myfunc_2) 8 myfunc_lowest myfunc_higher
              \<lparr>slot = Target (Some vcl_myfunc_10), selections = 1, invoked = [vcl_myfunc_2]\<rparr>
            = Inr s2
        \<and> slot s2 = Target (Some vcl_myfunc_10) \<and> selections s2 = 1
        \<and> invoked s2 = [vcl_myfunc_2, vcl_myfunc_10])
   \<and> calls 3 (Some vcl_myfunc_2) 8 myfunc_lowest myfunc_higher VCL_DISPATCHER
       = Inr \<lparr>slot = Target (Some vcl_myfunc_10), selections = 1,
              invoked = [vcl_myfunc_2, vcl_myfunc_10, vcl_myfunc_10]\<rparr>
   \<and> selections \<lparr>slot = Target (Some vcl_myfunc_10), selections = 1,
              invoked = [vcl_myfunc_2, vcl_myfunc_10, vcl_myfunc_10]\<rparr> \<le> 1"
proof -
  let ?f = "Some vcl_myfunc_2"
  let ?s1 = "\<lparr>slot = Target (Some vcl_myfunc_10), selections = 1, invoked = [vcl_myfunc_2]\<rparr>"
  have c1: "VCL_DISPATCH ?f 8 myfunc_lowest myfunc_higher VCL_DISPATCHER = Inr ?s1"
    by (simp add: first_call example_select call_ptr_def)
  have c3: "calls 3 ?f 8 myfunc_lowest myfunc_higher VCL_DISPATCHER
      = Inr \<lparr>slot = Target (Some vcl_myfunc_10), selections = 1,
             invoked = [vcl_myfunc_2, vcl_myfunc_10, vcl_myfunc_10]\<rparr>"
    by (simp add: numeral_3_eq_3 c1 resolved_call)
  let ?s3 = "\<lparr>slot = Target (Some vcl_myfunc_10), selections = 1,
      invoked = [vcl_myfunc_2, vcl_myfunc_10, vcl_myfunc_10]\<rparr>"
  from second_call_bypasses_selection [OF example_linked, of 8 ?f]
  obtain e where sel: "vcl_select 8 myfunc_lowest myfunc_higher = Some e"
    and after: "\<And>s1. VCL_DISPATCH ?f 8 myfunc_lowest myfunc_higher VCL_DISPATCHER = Inr s1
      \<Longrightarrow> \<exists>s2. VCL_DISPATCH ?f 8 myfunc_lowest myfunc_higher s1 = Inr s2
            \<and> slot s2 = Target (Some e) \<and> selections s2 = 1
            \<and> invoked s2 = invoked s1 @ [e]"
    and once: "\<And>k s. calls k ?f 8 myfunc_lowest myfunc_higher VCL_DISPATCHER = Inr s
      \<Longrightarrow> selections s \<le> 1"
    by blast
  from sel have e: "e = vcl_myfunc_10"
    by (simp add: example_select)
  from after [OF c1] have second:
    "\<exists>s2. VCL_DISPATCH ?f 8 myfunc_lowest myfunc_higher ?s1 = Inr s2
        \<and> slot s2 = Target (Some vcl_myfunc_10) \<and> selections s2 = 1
        \<and> invoked s2 = [vcl_myfunc_2, vcl_myfunc_10]"
    unfolding e by simp
  have bound: "selections ?s3 \<le> 1"
    by (rule once [OF c3])
  from example_linked example_select [of 8] c1 second c3 bound
  show ?thesis by blast
qed

section \<open>Properties of the interleaved execution\<close>

lemma consistent_start: "consistent lvl v vs process_start"
  by (simp add: consistent_def process_start_def)

lemma thread_step_consistent:
  assumes "consistent lvl v vs s"
  shows "consistent lvl v vs (thread_step f lvl v vs t s)"
proof -
  let ?sel = "vcl_select lvl v vs"
  from assms have slot_ok: "slot s = Trampoline \<or> slot s = Target ?sel"
    and selected_ok: "\<And>u g. threads s u = Selected g \<Longrightarrow> g = ?sel"
    unfolding consistent_def by blast+
  show ?thesis
  proof (cases "threads s t")
    case Idle
    show ?thesis
    proof (cases "slot s")
      case Trampoline
      have "thread_step f lvl v vs t s = s\<lparr>threads := (threads s)(t := In_dispatch)\<rparr>"
        using Idle Trampoline by (simp add: thread_step_def)
      then show ?thesis
        unfolding consistent_def using slot_ok selected_ok by (simp; blast)
    next
      case (Target p)
      have "thread_step f lvl v vs t s = s\<lparr>threads := (threads s)(t := Invoking p)\<rparr>"
        using Idle Target by (simp add: thread_step_def)
      then show ?thesis
        unfolding consistent_def using slot_ok selected_ok by (simp; blast)
    qed
  next
    case In_dispatch
    have "thread_step f lvl v vs t s
      = s\<lparr>selections := selections s + 1, threads := (threads s)(t := Selected ?sel)\<rparr>"
      using In_dispatch by (simp add: thread_step_def)
    then show ?thesis
      unfolding consistent_def using slot_ok selected_ok by (simp; blast)
  next
    case (Selected g)
    then have "g = ?sel" by (rule selected_ok)
    with Selected have "thread_step f lvl v vs t s
      = s\<lparr>slot := Target ?sel, threads := (threads s)(t := Invoking f)\<rparr>"
      by (simp add: thread_step_def)
    then show ?thesis
      unfolding consistent_def using selected_ok by (simp; blast)
  next
    case (Invoking p)
    show ?thesis
    proof (cases p)
      case None
      with Invoking
      have "thread_step f lvl v vs t s = s\<lparr>threads := (threads s)(t := Crashed)\<rparr>"
        by (simp add: thread_step_def)
      then show ?thesis
        unfolding consistent_def using slot_ok selected_ok by (simp; blast)
    next
      case (Some e)
      with Invoking have "thread_step f lvl v vs t s
        = s\<lparr>invoked := invoked s @ [e], threads := (threads s)(t := Idle)\<rparr>"
        by (simp add: thread_step_def)
      then show ?thesis
        unfolding consistent_def using slot_ok selected_ok by (simp; blast)
    qed
  next
    case Crashed
    with assms show ?thesis
      by (simp add: thread_step_def)
  qed
qed

lemma run_consistent:
  "consistent lvl v vs s \<Longrightarrow> consistent lvl v vs (run f lvl v vs sched s)"
  unfolding run_def
  by (induction sched arbitrary: s) (simp_all add: thread_step_consistent)

lemma run_append:
  "run f lvl v vs (sched @ later) s = run f lvl v vs later (run f lvl v vs sched s)"
  by (simp add: run_def)

lemma thread_step_keeps_resolved:
  assumes "consistent lvl v vs s" and "slot s \<noteq> Trampoline"
  shows "slot (thread_step f lvl v vs t s) = slot s"
proof (cases "threads s t")
  case Idle
  then show ?thesis
    by (cases "slot s") (simp_all add: thread_step_def)
next
  case In_dispatch
  then show ?thesis
    by (simp add: thread_step_def)
next
  case (Selected g)
  with assms(1) have "g = vcl_select lvl v vs"
    unfolding consistent_def by blast
  moreover from assms have "slot s = Target (vcl_select lvl v vs)"
    unfolding consistent_def by blast
  ultimately show ?thesis
    using Selected by (simp add: thread_step_def)
next
  case (Invoking p)
  then show ?thesis
    by (cases p) (simp_all add: thread_step_def)
next
  case Crashed
  then show ?thesis
    by (simp add: thread_step_def)
qed

lemma run_keeps_resolved:
  "consistent lvl v vs s \<Longrightarrow> slot s \<noteq> Trampoline \<Longrightarrow> slot (run f lvl v vs sched s) = slot s"
proof (induction sched arbitrary: s)
  case Nil
  show ?case by (simp add: run_def)
next
  case (Cons t sched)
  let ?s' = "thread_step f lvl v vs t s"
  have keep: "slot ?s' = slot s"
    by (rule thread_step_keeps_resolved [OF Cons.prems])
  have "slot (run f lvl v vs sched ?s') = slot ?s'"
    using Cons.prems keep
    by (intro Cons.IH thread_step_consistent) simp_all
  with keep show ?case by (simp add: run_def)
qed

text \<open>A thread that runs alone makes the first call of the sequential wrapper.\<close>

lemma single_thread_first_call:
  "VCL_DISPATCH (Some e0) lvl v vs VCL_DISPATCHER
     = Inr \<lparr>slot = Target (vcl_select lvl v vs), selections = 1, invoked = [e0]\<rparr>
   \<and> run (Some e0) lvl v vs [t, t, t, t] process_start
     = \<lparr>slot = Target (vcl_select lvl v vs), selections = 1, invoked = [e0],
        threads = (\<lambda>t. Idle)\<rparr>"
  by (simp add: first_call call_ptr_def run_def thread_step_def process_start_def fun_eq_iff)

lemma example_race:
  "run f 7 myfunc_lowest myfunc_higher [0, 1, 0, 1] process_start
     = \<lparr>slot = Trampoline, selections = 2, invoked = [],
        threads = (\<lambda>t. Idle)(0 := Selected (Some vcl_myfunc_10),
                              1 := Selected (Some vcl_myfunc_10))\<rparr>"
  by (simp add: run_def thread_step_def process_start_def example_select)

lemma example_resolved:
  "slot (run f 7 myfunc_lowest myfunc_higher [0, 1, 0, 1, 0] process_start)
     = Target (Some vcl_myfunc_10)"
  by (simp add: run_def thread_step_def process_start_def example_select)

text \<open>
  Claim C6. For linked variants there is one entry point \<open>e\<close> of the variant list, the
  selected one, such that after every schedule of the threads, that is at every point
  of the execution, the slot holds either the dispatcher or the pointer to \<open>e\<close>. It
  never holds the null pointer, and once it holds the pointer to \<open>e\<close> it keeps it
  whatever steps follow. The store of the pointer is taken as one step.
\<close>

theorem slot_trampoline_or_variant:
  assumes "linked v vs"
  shows "\<exists>i e. (i, Some e) \<in> set (v # vs) \<and> vcl_select lvl v vs = Some e
     \<and> (slot (run f lvl v vs sched process_start) = Trampoline
          \<or> slot (run f lvl v vs sched process_start) = Target (Some e))
     \<and> slot (run f lvl v vs sched process_start) \<noteq> Target None
     \<and> (slot (run f lvl v vs sched process_start) \<noteq> Trampoline \<longrightarrow>
          slot (run f lvl v vs (sched @ later) process_start)
            = slot (run f lvl v vs sched process_start))"
proof -
  let ?s = "run f lvl v vs sched process_start"
  have m: "last (v # vs) \<in> set (v # vs)"
    by (rule last_in_set) simp
  with assms obtain e where e: "snd (last (v # vs)) = Some e"
    unfolding linked_def by blast
  then have "last (v # vs) = (fst (last (v # vs)), Some e)"
    by (simp add: prod_eq_iff)
  with m have mem: "(fst (last (v # vs)), Some e) \<in> set (v # vs)"
    by simp
  have sel: "vcl_select lvl v vs = Some e"
    using vcl_select_last [OF assms, of lvl] e by simp
  have inv: "consistent lvl v vs ?s"
    by (rule run_consistent [OF consistent_start])
  then have either: "slot ?s = Trampoline \<or> slot ?s = Target (Some e)"
    unfolding consistent_def sel by blast
  then have not_null: "slot ?s \<noteq> Target None"
    by auto
  have stays: "slot (run f lvl v vs (sched @ later) process_start) = slot ?s"
    if "slot ?s \<noteq> Trampoline"
    unfolding run_append by (rule run_keeps_resolved [OF inv that])
  from mem sel either not_null stays show ?thesis by blast
qed

theorem slot_trampoline_or_variant_witness:
  "linked myfunc_lowest myfunc_higher
   \<and> slot (run (Some vcl_myfunc_10) 7 myfunc_lowest myfunc_higher [0, 1, 0, 1, 0]
        process_start) \<noteq> Trampoline
   \<and> slot (run (Some vcl_myfunc_10) 7 myfunc_lowest myfunc_higher [0, 1, 0, 1, 0]
        process_start) = Target (Some vcl_myfunc_10)
   \<and> slot (run (Some vcl_myfunc_10) 7 myfunc_lowest myfunc_higher
        ([0, 1, 0, 1, 0] @ [1, 1, 0]) process_start) = Target (Some vcl_myfunc_10)"
  using slot_trampoline_or_variant [OF example_linked,
      of 7 "Some vcl_myfunc_10" "[0, 1, 0, 1, 0]" "[1, 1, 0]"]
    example_linked example_resolved [of "Some vcl_myfunc_10"]
  by auto

text \<open>
  Claim C10. \<open>vcl_select\<close> is a function of the detected level and the variant list
  alone. In every interleaving of the threads, a thread that has evaluated the selection
  holds the value \<open>vcl_select lvl v vs\<close>, its store puts exactly this value in the slot,
  and the slot holds the dispatcher or this value.
\<close>

theorem racing_threads_store_same_value:
  "(\<forall>t g. threads (run f lvl v vs sched process_start) t = Selected g \<longrightarrow>
       g = vcl_select lvl v vs
       \<and> slot (thread_step f lvl v vs t (run f lvl v vs sched process_start))
           = Target (vcl_select lvl v vs))
   \<and> (slot (run f lvl v vs sched process_start) = Trampoline
        \<or> slot (run f lvl v vs sched process_start) = Target (vcl_select lvl v vs))"
proof -
  let ?s = "run f lvl v vs sched process_start"
  have inv: "consistent lvl v vs ?s"
    by (rule run_consistent [OF consistent_start])
  have "g = vcl_select lvl v vs
      \<and> slot (thread_step f lvl v vs t ?s) = Target (vcl_select lvl v vs)"
    if sel: "threads ?s t = Selected g" for t g
  proof -
    from inv sel have "g = vcl_select lvl v vs"
      unfolding consistent_def by blast
    with sel show ?thesis
      by (simp add: thread_step_def)
  qed
  moreover from inv have "slot ?s = Trampoline \<or> slot ?s = Target (vcl_select lvl v vs)"
    unfolding consistent_def by blast
  ultimately show ?thesis by blast
qed

theorem racing_threads_store_same_value_witness:
  "threads (run (Some vcl_myfunc_10) 7 myfunc_lowest myfunc_higher [0, 1, 0, 1]
      process_start) 0 = Selected (Some vcl_myfunc_10)
   \<and> threads (run (Some vcl_myfunc_10) 7 myfunc_lowest myfunc_higher [0, 1, 0, 1]
      process_start) 1 = Selected (Some vcl_myfunc_10)
   \<and> Some vcl_myfunc_10 = vcl_select 7 myfunc_lowest myfunc_higher
   \<and> slot (thread_step (Some vcl_myfunc_10) 7 myfunc_lowest myfunc_higher 0
        (run (Some vcl_myfunc_10) 7 myfunc_lowest myfunc_higher [0, 1, 0, 1] process_start))
     = Target (vcl_select 7 myfunc_lowest myfunc_higher)
   \<and> slot (thread_step (Some vcl_myfunc_10) 7 myfunc_lowest myfunc_higher 1
        (run (Some vcl_myfunc_10) 7 myfunc_lowest myfunc_higher [0, 1, 0, 1] process_start))
     = Target (vcl_select 7 myfunc_lowest myfunc_higher)"
proof -
  let ?s = "run (Some vcl_myfunc_10) 7 myfunc_lowest myfunc_higher [0, 1, 0, 1] process_start"
  have t0: "threads ?s 0 = Selected (Some vcl_myfunc_10)"
    and t1: "threads ?s 1 = Selected (Some vcl_myfunc_10)"
    unfolding example_race by simp_all
  from racing_threads_store_same_value
    [of "Some vcl_myfunc_10" 7 myfunc_lowest myfunc_higher "[0, 1, 0, 1]"] t0 t1
  show ?thesis by blast
qed

end
